theory Spec2Isabelle
  imports Main
begin

section \<open>Python values used by \<open>convertNumbers.py\<close>\<close>

text \<open>
  Python integers are unbounded and are modelled as \<open>int\<close>; \<open>//\<close> and \<open>%\<close> with a
  positive divisor are \<open>div\<close> and \<open>mod\<close>. A \<open>str\<close> is a \<open>string\<close>. An exception is
  a value of type \<open>error\<close>, and a computation that may raise returns \<open>error + 'a\<close>.
\<close>

datatype error = FileNotFoundError string | ValueError | IndexError

text \<open>\<open>xs[i]\<close>: a negative index counts from the end, an index out of range raises.\<close>

definition norm_index :: "'a list \<Rightarrow> int \<Rightarrow> int" where
  "norm_index xs i = (if i < 0 then i + int (length xs) else i)"

definition getitem :: "'a list \<Rightarrow> int \<Rightarrow> error + 'a" where
  "getitem xs i =
     (if norm_index xs i < 0 \<or> int (length xs) \<le> norm_index xs i then Inl IndexError
      else Inr (xs ! nat (norm_index xs i)))"

text \<open>\<open>xs[i] = v\<close> on a list.\<close>

definition setitem :: "'a list \<Rightarrow> int \<Rightarrow> 'a \<Rightarrow> error + 'a list" where
  "setitem xs i v =
     (if norm_index xs i < 0 \<or> int (length xs) \<le> norm_index xs i then Inl IndexError
      else Inr (xs[nat (norm_index xs i) := v]))"

text \<open>\<open>s.index(c)\<close> for a one-character \<open>c\<close>: the first position, or ValueError.\<close>

fun str_index :: "string \<Rightarrow> char \<Rightarrow> error + int" where
  "str_index [] c = Inl ValueError"
| "str_index (x # xs) c =
     (if x = c then Inr 0
      else (case str_index xs c of Inl e \<Rightarrow> Inl e | Inr k \<Rightarrow> Inr (k + 1)))"

text \<open>\<open>s[start:]\<close>: a negative start counts from the end and is clamped at 0.\<close>

definition slice_from :: "'a list \<Rightarrow> int \<Rightarrow> 'a list" where
  "slice_from s start = drop (nat (if start < 0 then int (length s) + start else start)) s"

text \<open>
  \<open>s.zfill(width)\<close>: pads with \<open>'0'\<close> on the left up to \<open>width\<close>; a leading sign
  character stays in front of the padding. \<open>s.rjust(width, fillchar)\<close> pads on the left
  with \<open>fillchar\<close>. Neither ever shortens the string.
\<close>

definition zfill :: "string \<Rightarrow> int \<Rightarrow> string" where
  "zfill s width =
     (if width \<le> int (length s) then s
      else (case s of
              [] \<Rightarrow> replicate (nat width) (CHR ''0'')
            | c # rest \<Rightarrow>
                if c = CHR ''+'' \<or> c = CHR ''-''
                then c # replicate (nat width - length s) (CHR ''0'') @ rest
                else replicate (nat width - length s) (CHR ''0'') @ s))"

definition rjust :: "string \<Rightarrow> int \<Rightarrow> char \<Rightarrow> string" where
  "rjust s width fillchar =
     (if width \<le> int (length s) then s
      else replicate (nat width - length s) fillchar @ s)"

text \<open>\<open>str(d)\<close> for the remainder \<open>d = n % 2\<close>, which is 0 or 1.\<close>

definition str_bit :: "int \<Rightarrow> string" where
  "str_bit d = (if d = 0 then ''0'' else ''1'')"

section \<open>The \<open>NumberConverter\<close> object\<close>

text \<open>
  The fields that \<open>__init__\<close> creates. A method is a function of the object and
  its arguments that returns its result, or the exception it raises, together with the
  object as the call leaves it.
\<close>

record number_converter =
  file_path :: string
  data :: "int list"
  line_errors :: "(nat \<times> string) list"

type_synonym 'a outcome = "(error + 'a) \<times> number_converter"

section \<open>\<open>convert_to_binary\<close>\<close>

text \<open>
  The loop \<open>while n > 0: binary_digits.append(str(n % 2)); n = n // 2\<close>, with the list
  of digit strings collected so far as accumulator.
\<close>

function binary_digits_loop :: "int \<Rightarrow> string list \<Rightarrow> string list" where
  "binary_digits_loop n binary_digits =
     (if n > 0 then binary_digits_loop (n div 2) (binary_digits @ [str_bit (n mod 2)])
      else binary_digits)"
  by pat_completeness auto
termination
  by (relation "measure (\<lambda>(n, ds). nat n)") auto

declare binary_digits_loop.simps [simp del]

text \<open>
  \<open>__binary_add_one\<close>: the loop \<open>for i in range(length - 1, -1, -1)\<close>; the first
  argument \<open>Suc i\<close> says that index \<open>i\<close> is visited next, \<open>0\<close> that the range is
  exhausted. The \<open>break\<close> leaves the loop with the list and carry 0.
\<close>

fun binary_add_one_loop :: "nat \<Rightarrow> string \<Rightarrow> int \<Rightarrow> error + (string \<times> int)" where
  "binary_add_one_loop 0 binary_list carry = Inr (binary_list, carry)"
| "binary_add_one_loop (Suc i) binary_list carry =
     (case getitem binary_list (int i) of
        Inl e \<Rightarrow> Inl e
      | Inr b \<Rightarrow>
          if b = CHR ''1'' \<and> carry = 1 then
            (case setitem binary_list (int i) (CHR ''0'') of
               Inl e \<Rightarrow> Inl e
             | Inr binary_list' \<Rightarrow> binary_add_one_loop i binary_list' 1)
          else if carry = 1 then
            (case setitem binary_list (int i) (CHR ''1'') of
               Inl e \<Rightarrow> Inl e
             | Inr binary_list' \<Rightarrow> Inr (binary_list', 0))
          else binary_add_one_loop i binary_list carry)"

definition binary_add_one :: "number_converter \<Rightarrow> string \<Rightarrow> string outcome" where
  "binary_add_one self binary =
     (case binary_add_one_loop (length binary) binary 1 of
        Inl e \<Rightarrow> (Inl e, self)
      | Inr (binary_list, carry) \<Rightarrow>
          (Inr (slice_from (if carry = 1 then CHR ''1'' # binary_list else binary_list)
                  (- int (length binary))), self))"

text \<open>\<open>__twos_complement\<close>: invert every character, add one, \<open>zfill(bits)\<close>.\<close>

definition invert_bits :: "string \<Rightarrow> string" where
  "invert_bits binary = map (\<lambda>b. if b = CHR ''0'' then CHR ''1'' else CHR ''0'') binary"

definition twos_complement :: "number_converter \<Rightarrow> string \<Rightarrow> int \<Rightarrow> string outcome" where
  "twos_complement self binary bits =
     (case binary_add_one self (invert_bits binary) of
        (Inl e, self') \<Rightarrow> (Inl e, self')
      | (Inr inverted_plus_one, self') \<Rightarrow> (Inr (zfill inverted_plus_one bits), self'))"

definition convert_to_binary :: "number_converter \<Rightarrow> int \<Rightarrow> int \<Rightarrow> string outcome" where
  "convert_to_binary self number bits =
     (if number = 0 then (Inr ''0'', self)
      else
        let binary_digits = binary_digits_loop \<bar>number\<bar> [] in
        if number < 0 then twos_complement self (zfill (concat (rev binary_digits)) bits) bits
        else (Inr (concat (rev binary_digits)), self))"

section \<open>\<open>convert_to_hex\<close>\<close>

definition hex_digits :: string where
  "hex_digits = ''0123456789ABCDEF''"

text \<open>
  The loop \<open>while n > 0: hex_string = hex_digits[n % 16] + hex_string; n = n // 16\<close>.
\<close>

function hex_loop :: "int \<Rightarrow> string \<Rightarrow> error + string" where
  "hex_loop n hex_string =
     (if n > 0 then
        (case getitem hex_digits (n mod 16) of
           Inl e \<Rightarrow> Inl e
         | Inr d \<Rightarrow> hex_loop (n div 16) (d # hex_string))
      else Inr hex_string)"
  by pat_completeness auto
termination
  by (relation "measure (\<lambda>(n, hs). nat n)") auto

declare hex_loop.simps [simp del]

text \<open>
  \<open>''.join(hex_digits[15 - hex_digits.index(digit)] for digit in hex_string)\<close>: the
  digits are inverted from left to right, and the first failing lookup raises.
\<close>

fun invert_hex :: "string \<Rightarrow> error + string" where
  "invert_hex [] = Inr []"
| "invert_hex (digit # rest) =
     (case str_index hex_digits digit of
        Inl e \<Rightarrow> Inl e
      | Inr k \<Rightarrow>
          (case getitem hex_digits (15 - k) of
             Inl e \<Rightarrow> Inl e
           | Inr d \<Rightarrow>
               (case invert_hex rest of
                  Inl e \<Rightarrow> Inl e
                | Inr ds \<Rightarrow> Inr (d # ds))))"

text \<open>
  \<open>__add_one_to_hex\<close>: the loop \<open>for digit in reversed(hex_string)\<close>; the first
  argument holds the digits still to visit, least significant first. The carry left
  at the end of the loop is not used: \<open>result\<close> is returned as it is.
\<close>

fun add_one_to_hex_loop :: "string \<Rightarrow> string \<Rightarrow> int \<Rightarrow> error + string" where
  "add_one_to_hex_loop [] result carry = Inr result"
| "add_one_to_hex_loop (digit # rest) result carry =
     (if carry = 0 then add_one_to_hex_loop rest (digit # result) carry
      else
        (case str_index hex_digits digit of
           Inl e \<Rightarrow> Inl e
         | Inr k \<Rightarrow>
             let index = k + carry in
             if index \<ge> 16 then add_one_to_hex_loop rest (CHR ''0'' # result) 1
             else
               (case getitem hex_digits index of
                  Inl e \<Rightarrow> Inl e
                | Inr d \<Rightarrow> add_one_to_hex_loop rest (d # result) 0)))"

definition add_one_to_hex :: "number_converter \<Rightarrow> string \<Rightarrow> string outcome" where
  "add_one_to_hex self hex_string = (add_one_to_hex_loop (rev hex_string) [] 1, self)"

definition convert_to_hex :: "number_converter \<Rightarrow> int \<Rightarrow> string outcome" where
  "convert_to_hex self number =
     (if number = 0 then (Inr ''0'', self)
      else
        (case hex_loop \<bar>number\<bar> [] of
           Inl e \<Rightarrow> (Inl e, self)
         | Inr hex_string \<Rightarrow>
             if number < 0 then
               (case invert_hex (rjust hex_string 10 (CHR ''0'')) of
                  Inl e \<Rightarrow> (Inl e, self)
                | Inr inverted_hex \<Rightarrow>
                    (case add_one_to_hex self inverted_hex of
                       (Inl e, self') \<Rightarrow> (Inl e, self')
                     | (Inr incremented, self') \<Rightarrow>
                         (Inr (rjust incremented 10 (CHR ''F'')), self')))
             else (Inr hex_string, self)))"

section \<open>The loader\<close>

text \<open>
  The file system maps the path of a regular file to its lines, as iterating over the
  open file yields them; \<open>os.path.isfile\<close> holds for exactly these paths.
\<close>

type_synonym file_system = "string \<rightharpoonup> string list"

definition isfile :: "file_system \<Rightarrow> string \<Rightarrow> bool" where
  "isfile fs path = (fs path \<noteq> None)"

definition validate_file_exists :: "file_system \<Rightarrow> number_converter \<Rightarrow> unit outcome" where
  "validate_file_exists fs self =
     (if \<not> isfile fs (file_path self)
      then (Inl (FileNotFoundError (''The file '' @ file_path self @ '' does not exist.'')), self)
      else (Inr (), self))"

text \<open>
  \<open>line.strip()\<close> removes the white space at both ends. Python's built-in \<open>int\<close> on
  a string is a parameter \<open>py_int\<close> of the loader: \<open>None\<close> stands for its ValueError,
  which \<open>__validate_input\<close> catches.
\<close>

definition is_space :: "char \<Rightarrow> bool" where
  "is_space c = (of_char c \<in> set [9, 10, 11, 12, 13, 28, 29, 30, 31, 32 :: nat])"

definition strip :: "string \<Rightarrow> string" where
  "strip s = rev (dropWhile is_space (rev (dropWhile is_space s)))"

definition validate_input ::
  "(string \<Rightarrow> int option) \<Rightarrow> number_converter \<Rightarrow> string \<Rightarrow> int option \<times> number_converter" where
  "validate_input py_int self line =
     (case py_int (strip line) of
        Some number \<Rightarrow> (Some number, self)
      | None \<Rightarrow> (None, self))"

text \<open>The loop \<open>for i, line in enumerate(file)\<close> of \<open>__load_data\<close>.\<close>

fun load_lines ::
  "(string \<Rightarrow> int option) \<Rightarrow> nat \<Rightarrow> string list \<Rightarrow> number_converter \<Rightarrow> number_converter" where
  "load_lines py_int i [] self = self"
| "load_lines py_int i (line # rest) self =
     (case validate_input py_int self line of
        (Some number, self') \<Rightarrow>
          load_lines py_int (Suc i) rest (self'\<lparr>data := data self' @ [number]\<rparr>)
      | (None, self') \<Rightarrow>
          load_lines py_int (Suc i) rest
            (self'\<lparr>line_errors := line_errors self' @ [(i, line)]\<rparr>))"

text \<open>
  \<open>__load_data\<close> and \<open>__init__\<close>. An exception of \<open>__validate_file_exists\<close> is not
  caught: it ends \<open>__load_data\<close> and the constructor. So does the FileNotFoundError of
  \<open>open\<close> on a path that is no file.
\<close>

definition load_data ::
  "file_system \<Rightarrow> (string \<Rightarrow> int option) \<Rightarrow> number_converter \<Rightarrow> unit outcome" where
  "load_data fs py_int self =
     (case validate_file_exists fs self of
        (Inl e, self') \<Rightarrow> (Inl e, self')
      | (Inr u, self') \<Rightarrow>
          (case fs (file_path self') of
             None \<Rightarrow> (Inl (FileNotFoundError (file_path self')), self')
           | Some file \<Rightarrow> (Inr (), load_lines py_int 0 file self')))"

definition init ::
  "file_system \<Rightarrow> (string \<Rightarrow> int option) \<Rightarrow> string \<Rightarrow> unit outcome" where
  "init fs py_int path =
     load_data fs py_int \<lparr>file_path = path, data = [], line_errors = []\<rparr>"

section \<open>Reading an encoded string back\<close>

text \<open>
  The unsigned value of a digit string, most significant digit first, and the signed
  reading of an unsigned value \<open>v\<close> as a two's-complement number of \<open>w\<close> bits.
\<close>

definition bit_value :: "char \<Rightarrow> int" where
  "bit_value c = (if c = CHR ''1'' then 1 else 0)"

definition bin_value :: "string \<Rightarrow> int" where
  "bin_value s = foldl (\<lambda>a c. 2 * a + bit_value c) 0 s"

definition hex_digit_value :: "char \<Rightarrow> int" where
  "hex_digit_value c = (case str_index hex_digits c of Inl e \<Rightarrow> 0 | Inr k \<Rightarrow> k)"

definition hex_value :: "string \<Rightarrow> int" where
  "hex_value s = foldl (\<lambda>a c. 16 * a + hex_digit_value c) 0 s"

definition twos_complement_value :: "nat \<Rightarrow> int \<Rightarrow> int" where
  "twos_complement_value w v = (if 2 * v \<ge> 2 ^ w then v - 2 ^ w else v)"

definition is_binary :: "string \<Rightarrow> bool" where
  "is_binary s = list_all (\<lambda>c. c = CHR ''0'' \<or> c = CHR ''1'') s"

definition is_hex :: "string \<Rightarrow> bool" where
  "is_hex s = list_all (\<lambda>c. c \<in> set hex_digits) s"

section \<open>Digit strings of a magnitude\<close>

text \<open>
  The digits of a non-negative number, most significant first, described by recursion
  on the number: what the two \<open>while\<close> loops leave in their accumulators.
\<close>

function bin_digits :: "int \<Rightarrow> string" where
  "bin_digits n = (if n > 0 then bin_digits (n div 2) @ str_bit (n mod 2) else [])"
  by pat_completeness auto
termination
  by (relation "measure nat") auto

declare bin_digits.simps [simp del]

definition hex_char :: "int \<Rightarrow> char" where
  "hex_char d = hex_digits ! nat d"

function hex_of :: "int \<Rightarrow> string" where
  "hex_of n = (if n > 0 then hex_of (n div 16) @ [hex_char (n mod 16)] else [])"
  by pat_completeness auto
termination
  by (relation "measure nat") auto

declare hex_of.simps [simp del]

section \<open>A sample run\<close>

text \<open>
  A directory holding one file of three lines, the values of \<open>int\<close> on the
  stripped lines \<open>12\<close>, \<open>abc\<close> and \<open>-7\<close>, and the object that loading this
  file constructs.
\<close>

definition sample_fs :: file_system where
  "sample_fs = Map.empty(''numbers.txt'' \<mapsto> [''12'' @ [CHR 0x0A], ''abc'' @ [CHR 0x0A], '' -7 ''])"

definition sample_int :: "string \<Rightarrow> int option" where
  "sample_int s = (if s = ''12'' then Some 12 else if s = ''-7'' then Some (- 7) else None)"

definition sample_converter :: number_converter where
  "sample_converter =
     \<lparr>file_path = ''numbers.txt'', data = [12, - 7],
      line_errors = [(1, ''abc'' @ [CHR 0x0A])]\<rparr>"

section \<open>Indexing and digit values\<close>

lemma getitem_nat: "i < length xs \<Longrightarrow> getitem xs (int i) = Inr (xs ! i)"
  by (simp add: getitem_def norm_index_def)

lemma setitem_nat: "i < length xs \<Longrightarrow> setitem xs (int i) v = Inr (xs[i := v])"
  by (simp add: setitem_def norm_index_def)

lemma bin_value_Nil: "bin_value [] = 0"
  by (simp add: bin_value_def)

lemma bin_value_snoc: "bin_value (s @ [c]) = 2 * bin_value s + bit_value c"
  by (simp add: bin_value_def)

lemma bin_value_append: "bin_value (s @ t) = bin_value s * 2 ^ length t + bin_value t"
proof (induction t rule: rev_induct)
  case Nil
  show ?case by (simp add: bin_value_Nil)
next
  case (snoc c t)
  have "bin_value (s @ t @ [c]) = 2 * bin_value (s @ t) + bit_value c"
    using bin_value_snoc [of "s @ t" c] by simp
  then show ?case
    using snoc by (simp add: bin_value_snoc algebra_simps)
qed

lemma bin_value_Cons: "bin_value (c # s) = bit_value c * 2 ^ length s + bin_value s"
  using bin_value_append [of "[c]" s] bin_value_snoc [of "[]" c]
  by (simp add: bin_value_Nil)

lemma bit_value_range: "0 \<le> bit_value c \<and> bit_value c \<le> 1"
  by (simp add: bit_value_def)

lemma bin_value_nonneg: "0 \<le> bin_value s"
proof (induction s rule: rev_induct)
  case Nil
  show ?case by (simp add: bin_value_Nil)
next
  case (snoc c s)
  then show ?case
    using bit_value_range [of c] by (simp add: bin_value_snoc)
qed

lemma bin_value_less: "bin_value s < 2 ^ length s"
proof (induction s rule: rev_induct)
  case Nil
  show ?case by (simp add: bin_value_Nil)
next
  case (snoc c s)
  then show ?case
    using bit_value_range [of c] by (simp add: bin_value_snoc)
qed

lemma bin_value_replicate_zero: "bin_value (replicate k (CHR ''0'')) = 0"
  by (induction k) (simp_all add: bin_value_Nil bin_value_Cons bit_value_def)

lemma is_binary_append: "is_binary (s @ t) = (is_binary s \<and> is_binary t)"
  by (simp add: is_binary_def)

lemma is_binary_str_bit: "is_binary (str_bit d)"
  by (simp add: is_binary_def str_bit_def)

lemma bin_value_str_bit: "0 \<le> d \<Longrightarrow> d < 2 \<Longrightarrow> bin_value (str_bit d) = d"
  by (auto simp: str_bit_def bin_value_def bit_value_def)

lemma length_str_bit: "length (str_bit d) = 1"
  by (simp add: str_bit_def)

lemma binary_digits_loop_eq:
  "concat (rev (binary_digits_loop n acc)) = bin_digits n @ concat (rev acc)"
proof (induction n acc rule: binary_digits_loop.induct)
  case (1 n acc)
  show ?case
  proof (cases "n > 0")
    case True
    then show ?thesis
      using "1.IH" by (simp add: binary_digits_loop.simps [of n] bin_digits.simps [of n])
  next
    case False
    then show ?thesis
      by (simp add: binary_digits_loop.simps [of n] bin_digits.simps [of n])
  qed
qed

lemma is_binary_Nil: "is_binary []"
  by (simp add: is_binary_def)

lemma bin_digits_nonpos: "n \<le> 0 \<Longrightarrow> bin_digits n = []"
  by (simp add: bin_digits.simps [of n])

lemma bin_digits_pos: "0 < n \<Longrightarrow> bin_digits n = bin_digits (n div 2) @ str_bit (n mod 2)"
  by (simp add: bin_digits.simps [of n])

lemma is_binary_bin_digits: "is_binary (bin_digits n)"
proof (induction n rule: bin_digits.induct)
  case (1 n)
  show ?case
  proof (cases "n > 0")
    case True
    with "1.IH" show ?thesis
      by (simp add: bin_digits_pos [of n] is_binary_append is_binary_str_bit)
  next
    case False
    then show ?thesis
      by (simp add: bin_digits_nonpos is_binary_Nil)
  qed
qed

lemma bin_value_bin_digits: "0 \<le> n \<Longrightarrow> bin_value (bin_digits n) = n"
proof (induction n rule: bin_digits.induct)
  case (1 n)
  show ?case
  proof (cases "n > 0")
    case True
    then have "bin_value (bin_digits (n div 2)) = n div 2"
      using "1.IH" by simp
    moreover have "bin_value (str_bit (n mod 2)) = n mod 2"
      by (rule bin_value_str_bit) simp_all
    ultimately show ?thesis
      using True by (simp add: bin_digits_pos [of n] bin_value_append length_str_bit)
  next
    case False
    with "1.prems" show ?thesis
      by (simp add: bin_digits_nonpos bin_value_Nil)
  qed
qed

lemma bin_digits_nonempty: "0 < n \<Longrightarrow> bin_digits n \<noteq> []"
  by (simp add: bin_digits.simps [of n] str_bit_def)

lemma hd_bin_digits: "0 < n \<Longrightarrow> hd (bin_digits n) = CHR ''1''"
proof (induction n rule: bin_digits.induct)
  case (1 n)
  show ?case
  proof (cases "n div 2 > 0")
    case True
    then have "hd (bin_digits (n div 2)) = CHR ''1''" and "bin_digits (n div 2) \<noteq> []"
      using "1.IH" "1.prems" bin_digits_nonempty by simp_all
    then show ?thesis
      using "1.prems" by (simp add: bin_digits.simps [of n])
  next
    case False
    with "1.prems" have "n = 1" by linarith
    then show ?thesis
      by (simp add: bin_digits.simps [of 1] bin_digits.simps [of 0] str_bit_def)
  qed
qed

lemma bin_digits_lower: "0 < n \<Longrightarrow> 2 ^ (length (bin_digits n) - 1) \<le> n"
proof -
  assume pos: "0 < n"
  then obtain s where s: "bin_digits n = CHR ''1'' # s"
    using hd_bin_digits [OF pos] bin_digits_nonempty [OF pos]
    by (cases "bin_digits n") auto
  have "bin_value (bin_digits n) = n"
    using pos by (simp add: bin_value_bin_digits)
  then have "n = 2 ^ length s + bin_value s"
    by (simp add: s bin_value_Cons bit_value_def)
  then have "2 ^ length s \<le> n"
    using bin_value_nonneg [of s] by linarith
  moreover have "length (bin_digits n) - 1 = length s"
    by (simp add: s)
  ultimately show ?thesis
    by (simp only:)
qed

lemma bin_digits_upper: "0 \<le> n \<Longrightarrow> n < 2 ^ length (bin_digits n)"
  using bin_value_less [of "bin_digits n"] by (simp add: bin_value_bin_digits)


lemma is_binary_update:
  "is_binary xs \<Longrightarrow> c = CHR ''0'' \<or> c = CHR ''1'' \<Longrightarrow> is_binary (xs[i := c])"
  unfolding is_binary_def list_all_iff
  using set_update_subset_insert [of xs i c] by auto

lemma take_Suc_update:
  "k < length xs \<Longrightarrow> take (Suc k) (xs[k := c]) = take k xs @ [c]"
  by (simp add: take_Suc_conv_app_nth)

lemma binary_add_one_loop_spec:
  "k \<le> length xs \<Longrightarrow>
   \<exists>ys c. binary_add_one_loop k xs 1 = Inr (ys, c) \<and> length ys = length xs \<and>
          (c = 0 \<or> c = 1) \<and> (is_binary xs \<longrightarrow> is_binary ys) \<and>
          bin_value (take k ys) + c * 2 ^ k = bin_value (take k xs) + 1 \<and>
          drop k ys = drop k xs"
proof (induction k arbitrary: xs)
  case 0
  show ?case by (simp add: bin_value_Nil)
next
  case (Suc k)
  then have k: "k < length xs" by simp
  show ?case
  proof (cases "xs ! k = CHR ''1''")
    case True
    let ?xs' = "xs[k := CHR ''0'']"
    have "k \<le> length ?xs'" using k by simp
    from Suc.IH [OF this] obtain ys c where
      run: "binary_add_one_loop k ?xs' 1 = Inr (ys, c)" and len: "length ys = length xs"
      and c: "c = 0 \<or> c = 1" and bin: "is_binary ?xs' \<longrightarrow> is_binary ys"
      and val: "bin_value (take k ys) + c * 2 ^ k = bin_value (take k ?xs') + 1"
      and rest: "drop k ys = drop k ?xs'"
      by auto
    have step: "binary_add_one_loop (Suc k) xs 1 = Inr (ys, c)"
      using k True run by (simp add: getitem_nat setitem_nat)
    have yk: "ys ! k = CHR ''0''"
      using rest k len
      by (metis Cons_nth_drop_Suc length_list_update list.inject nth_list_update_eq)
    have "take (Suc k) ys = take k ys @ [CHR ''0'']"
      using k len yk by (simp add: take_Suc_conv_app_nth)
    then have v1: "bin_value (take (Suc k) ys) = 2 * bin_value (take k ys)"
      by (simp add: bin_value_snoc bit_value_def)
    have "take (Suc k) xs = take k xs @ [CHR ''1'']"
      using k True by (simp add: take_Suc_conv_app_nth)
    then have v2: "bin_value (take (Suc k) xs) = 2 * bin_value (take k xs) + 1"
      by (simp add: bin_value_snoc bit_value_def)
    have v3: "bin_value (take k ys) + c * 2 ^ k = bin_value (take k xs) + 1"
      using val by simp
    have total: "bin_value (take (Suc k) ys) + c * 2 ^ Suc k = bin_value (take (Suc k) xs) + 1"
      using v1 v2 v3 by simp
    have tail: "drop (Suc k) ys = drop (Suc k) xs"
      using rest by (metis drop_Suc drop_update_cancel lessI tl_drop)
    have "is_binary xs \<longrightarrow> is_binary ys"
      using bin by (simp add: is_binary_update)
    with step len c total tail show ?thesis by blast
  next
    case False
    let ?ys = "xs[k := CHR ''1'']"
    have step: "binary_add_one_loop (Suc k) xs 1 = Inr (?ys, 0)"
      using k False by (simp add: getitem_nat setitem_nat)
    have "take (Suc k) ?ys = take k xs @ [CHR ''1'']"
      using k by (rule take_Suc_update)
    then have v1: "bin_value (take (Suc k) ?ys) = 2 * bin_value (take k xs) + 1"
      by (simp add: bin_value_snoc bit_value_def)
    have "take (Suc k) xs = take k xs @ [xs ! k]"
      using k by (simp add: take_Suc_conv_app_nth)
    then have v2: "bin_value (take (Suc k) xs) = 2 * bin_value (take k xs)"
      using False by (simp add: bin_value_snoc bit_value_def)
    have total: "bin_value (take (Suc k) ?ys) + 0 * 2 ^ Suc k = bin_value (take (Suc k) xs) + 1"
      using v1 v2 by simp
    have "is_binary xs \<longrightarrow> is_binary ?ys"
      by (simp add: is_binary_update)
    moreover have "length ?ys = length xs" by simp
    moreover have "drop (Suc k) ?ys = drop (Suc k) xs" by simp
    ultimately show ?thesis
      using step total by blast
  qed
qed

lemma binary_add_one_spec:
  assumes "s \<noteq> []"
  shows "\<exists>r. binary_add_one self s = (Inr r, self) \<and> length r = length s \<and>
             (is_binary s \<longrightarrow> is_binary r) \<and>
             bin_value r = (bin_value s + 1) mod 2 ^ length s"
proof -
  from binary_add_one_loop_spec [of "length s" s] obtain ys c where
    run: "binary_add_one_loop (length s) s 1 = Inr (ys, c)" and len: "length ys = length s"
    and c: "c = 0 \<or> c = 1" and bin: "is_binary s \<longrightarrow> is_binary ys"
    and val: "bin_value ys + c * 2 ^ length s = bin_value s + 1"
    by auto
  have pos: "0 < length s" using assms by simp
  have res: "binary_add_one self s = (Inr ys, self)"
    using run len pos c by (auto simp: binary_add_one_def slice_from_def)
  have "bin_value ys = (bin_value ys + c * 2 ^ length s) mod 2 ^ length s"
    using bin_value_nonneg [of ys] bin_value_less [of ys] len by simp
  then have "bin_value ys = (bin_value s + 1) mod 2 ^ length s"
    using val by simp
  with res len bin show ?thesis by blast
qed

lemma length_invert_bits: "length (invert_bits s) = length s"
  by (simp add: invert_bits_def)

lemma is_binary_invert_bits: "is_binary (invert_bits s)"
  by (induction s) (simp_all add: invert_bits_def is_binary_def)

lemma bin_value_invert_bits:
  "is_binary s \<Longrightarrow> bin_value (invert_bits s) = 2 ^ length s - 1 - bin_value s"
proof (induction s rule: rev_induct)
  case Nil
  show ?case by (simp add: invert_bits_def bin_value_Nil)
next
  case (snoc c s)
  then have c: "c = CHR ''0'' \<or> c = CHR ''1''" and s: "is_binary s"
    by (simp_all add: is_binary_def)
  have "invert_bits (s @ [c]) = invert_bits s @ [if c = CHR ''0'' then CHR ''1'' else CHR ''0'']"
    by (simp add: invert_bits_def)
  then show ?case
    using c snoc.IH [OF s] by (auto simp: bin_value_snoc bit_value_def)
qed

lemma zfill_no_sign:
  "s \<noteq> [] \<Longrightarrow> hd s \<noteq> CHR ''+'' \<Longrightarrow> hd s \<noteq> CHR ''-'' \<Longrightarrow>
   zfill s w = replicate (nat w - length s) (CHR ''0'') @ s"
  by (cases s) (auto simp: zfill_def)

lemma zfill_wide: "w \<le> int (length s) \<Longrightarrow> zfill s w = s"
  by (simp add: zfill_def)

lemma is_binary_replicate_zero: "is_binary (replicate k (CHR ''0''))"
  by (simp add: is_binary_def list_all_iff)


lemma convert_to_binary_positive:
  "0 < number \<Longrightarrow> convert_to_binary self number bits = (Inr (bin_digits number), self)"
  by (simp add: convert_to_binary_def binary_digits_loop_eq)

lemma convert_to_binary_negative:
  assumes neg: "number < 0"
  shows "\<exists>r. convert_to_binary self number bits = (Inr r, self) \<and>
             length r = max (nat bits) (length (bin_digits \<bar>number\<bar>)) \<and>
             is_binary r \<and> bin_value r = 2 ^ length r + number"
proof -
  define m where "m = \<bar>number\<bar>"
  define ds where "ds = bin_digits m"
  define binary where "binary = zfill ds bits"
  define L where "L = max (nat bits) (length ds)"
  have m: "0 < m" "number = - m" using neg by (simp_all add: m_def)
  have ds: "ds \<noteq> []" "hd ds = CHR ''1''" "is_binary ds" "bin_value ds = m"
    using m(1) by (simp_all add: ds_def bin_digits_nonempty hd_bin_digits is_binary_bin_digits
        bin_value_bin_digits)
  have binary: "binary = replicate (nat bits - length ds) (CHR ''0'') @ ds"
    unfolding binary_def using ds(1,2) by (intro zfill_no_sign) simp_all
  have lenb: "length binary = L"
    by (simp add: binary L_def)
  have valb: "bin_value binary = m"
    by (simp add: binary bin_value_append bin_value_replicate_zero ds(4))
  have binb: "is_binary binary"
    by (simp add: binary is_binary_append is_binary_replicate_zero ds(3))
  have Lpos: "0 < L" using ds(1) by (auto simp: L_def max_def)
  have mL: "m < 2 ^ L"
  proof -
    have "m < 2 ^ length ds"
      using bin_digits_upper [of m] m(1) by (simp add: ds_def)
    also have "(2::int) ^ length ds \<le> 2 ^ L"
      by (rule power_increasing) (simp_all add: L_def)
    finally show ?thesis .
  qed
  have inv_ne: "invert_bits binary \<noteq> []"
    using Lpos lenb length_invert_bits [of binary] by auto
  from binary_add_one_spec [OF inv_ne] obtain r where
    r: "binary_add_one self (invert_bits binary) = (Inr r, self)" and lenr: "length r = L"
    and binr: "is_binary r"
    and valr: "bin_value r = (bin_value (invert_bits binary) + 1) mod 2 ^ L"
    by (auto simp: length_invert_bits lenb is_binary_invert_bits)
  have "bin_value (invert_bits binary) + 1 = 2 ^ L - m"
    by (simp add: bin_value_invert_bits [OF binb] lenb valb)
  then have "bin_value r = (2 ^ L - m) mod 2 ^ L"
    using valr by (simp only:)
  also have "\<dots> = 2 ^ L - m"
    using m(1) mL by (intro mod_pos_pos_trivial) simp_all
  finally have val: "bin_value r = 2 ^ L - m" .
  have "bits \<le> int (length r)"
    by (simp add: lenr L_def)
  then have "zfill r bits = r"
    by (rule zfill_wide)
  then have "twos_complement self binary bits = (Inr r, self)"
    by (simp add: twos_complement_def r)
  then have "convert_to_binary self number bits = (Inr r, self)"
    using neg by (simp add: convert_to_binary_def binary_digits_loop_eq binary_def ds_def m_def)
  moreover have "length r = max (nat bits) (length (bin_digits \<bar>number\<bar>))"
    by (simp add: lenr L_def ds_def m_def)
  moreover have "bin_value r = 2 ^ length r + number"
    by (simp add: val lenr m(2))
  ultimately show ?thesis
    using binr by blast
qed

lemma bin_digits_length_le:
  assumes "0 < n" "n < 2 ^ w"
  shows "length (bin_digits n) \<le> w"
proof (rule ccontr)
  assume "\<not> length (bin_digits n) \<le> w"
  then have "w \<le> length (bin_digits n) - 1" by simp
  then have "(2::int) ^ w \<le> 2 ^ (length (bin_digits n) - 1)"
    by (rule power_increasing) simp
  with bin_digits_lower [OF assms(1)] assms(2) show False by linarith
qed

lemma all_ones:
  "is_binary r \<Longrightarrow> bin_value r = 2 ^ length r - 1 \<Longrightarrow> r = replicate (length r) (CHR ''1'')"
proof (induction r)
  case Nil
  show ?case by simp
next
  case (Cons c r)
  then have c: "c = CHR ''0'' \<or> c = CHR ''1''" and r: "is_binary r"
    by (simp_all add: is_binary_def)
  have v: "bit_value c * 2 ^ length r + bin_value r = 2 * 2 ^ length r - 1"
    using Cons.prems(2) by (simp add: bin_value_Cons)
  have lt: "bin_value r < 2 ^ length r" by (rule bin_value_less)
  have "c = CHR ''1''"
  proof (rule ccontr)
    assume "c \<noteq> CHR ''1''"
    then have "bit_value c = 0" by (simp add: bit_value_def)
    with v have "bin_value r = 2 * 2 ^ length r - 1" by simp
    moreover have "(0::int) < 2 ^ length r" by simp
    ultimately show False using lt by linarith
  qed
  then have "bin_value r = 2 ^ length r - 1"
    using v by (simp add: bit_value_def)
  with Cons.IH [OF r] \<open>c = CHR ''1''\<close> show ?case by simp
qed

section \<open>Hexadecimal digits\<close>


lemma digit_cases:
  "0 \<le> d \<Longrightarrow> d < 16 \<Longrightarrow>
   d \<in> {0, 1, 2, 3, 4, 5, 6, 7, 8, 9, 10, 11, 12, 13, 14, 15 :: int}"
  by simp presburger

lemma getitem_hex_digits: "0 \<le> d \<Longrightarrow> d < 16 \<Longrightarrow> getitem hex_digits d = Inr (hex_char d)"
  by (simp add: getitem_def norm_index_def hex_digits_def hex_char_def)

lemma str_index_hex_char: "0 \<le> d \<Longrightarrow> d < 16 \<Longrightarrow> str_index hex_digits (hex_char d) = Inr d"
  using digit_cases [of d] by (auto simp: hex_digits_def hex_char_def)

lemma hex_char_in: "0 \<le> d \<Longrightarrow> d < 16 \<Longrightarrow> hex_char d \<in> set hex_digits"
  using digit_cases [of d] by (auto simp: hex_digits_def hex_char_def)

lemma str_index_range: "str_index s c = Inr k \<Longrightarrow> 0 \<le> k \<and> k < int (length s) \<and> s ! nat k = c"
proof (induction s arbitrary: k)
  case Nil
  then show ?case by simp
next
  case (Cons x s)
  show ?case
  proof (cases "x = c")
    case True
    with Cons.prems show ?thesis by simp
  next
    case False
    with Cons.prems obtain j where j: "str_index s c = Inr j" and k: "k = j + 1"
      by (auto split: sum.splits)
    from Cons.IH [OF j] have "0 \<le> j" "j < int (length s)" "s ! nat j = c" by simp_all
    then show ?thesis
      by (simp add: k nat_add_distrib)
  qed
qed

lemma str_index_member: "c \<in> set s \<Longrightarrow> \<exists>k. str_index s c = Inr k"
  by (induction s) auto

lemma hex_digit_index:
  assumes "c \<in> set hex_digits"
  shows "\<exists>k. str_index hex_digits c = Inr k \<and> 0 \<le> k \<and> k < 16 \<and> hex_char k = c"
proof -
  from str_index_member [OF assms] obtain k where k: "str_index hex_digits c = Inr k" ..
  from str_index_range [OF k] have "0 \<le> k" "k < 16" "hex_char k = c"
    by (simp_all add: hex_char_def hex_digits_def)
  with k show ?thesis by blast
qed

lemma hex_digit_value_range: "0 \<le> hex_digit_value c \<and> hex_digit_value c \<le> 15"
proof (cases "str_index hex_digits c")
  case (Inl e)
  then show ?thesis by (simp add: hex_digit_value_def)
next
  case (Inr k)
  from str_index_range [OF Inr] have "0 \<le> k" "k < 16"
    by (simp_all add: hex_digits_def)
  with Inr show ?thesis by (simp add: hex_digit_value_def)
qed

lemma hex_digit_value_hex_char: "0 \<le> d \<Longrightarrow> d < 16 \<Longrightarrow> hex_digit_value (hex_char d) = d"
  by (simp add: hex_digit_value_def str_index_hex_char)


lemma hex_value_Nil: "hex_value [] = 0"
  by (simp add: hex_value_def)

lemma hex_value_snoc: "hex_value (s @ [c]) = 16 * hex_value s + hex_digit_value c"
  by (simp add: hex_value_def)

lemma hex_value_append: "hex_value (s @ t) = hex_value s * 16 ^ length t + hex_value t"
proof (induction t rule: rev_induct)
  case Nil
  show ?case by (simp add: hex_value_Nil)
next
  case (snoc c t)
  have "hex_value (s @ t @ [c]) = 16 * hex_value (s @ t) + hex_digit_value c"
    using hex_value_snoc [of "s @ t" c] by simp
  then show ?case
    using snoc by (simp add: hex_value_snoc algebra_simps)
qed

lemma hex_value_nonneg: "0 \<le> hex_value s"
proof (induction s rule: rev_induct)
  case Nil
  show ?case by (simp add: hex_value_Nil)
next
  case (snoc c s)
  then show ?case
    using hex_digit_value_range [of c] by (simp add: hex_value_snoc)
qed

lemma hex_value_less: "hex_value s < 16 ^ length s"
proof (induction s rule: rev_induct)
  case Nil
  show ?case by (simp add: hex_value_Nil)
next
  case (snoc c s)
  then show ?case
    using hex_digit_value_range [of c] by (simp add: hex_value_snoc)
qed

lemma hex_value_replicate_zero: "hex_value (replicate k (CHR ''0'')) = 0"
proof (induction k)
  case 0
  show ?case by (simp add: hex_value_Nil)
next
  case (Suc k)
  have "replicate (Suc k) (CHR ''0'') = replicate k (CHR ''0'') @ [CHR ''0'']"
    by (simp add: replicate_append_same)
  moreover have "hex_digit_value (CHR ''0'') = 0"
    by (simp add: hex_digit_value_def hex_digits_def)
  ultimately show ?case
    using Suc by (simp only: hex_value_snoc)
qed

lemma is_hex_Nil: "is_hex []"
  by (simp add: is_hex_def)

lemma is_hex_append: "is_hex (s @ t) = (is_hex s \<and> is_hex t)"
  by (simp add: is_hex_def)

lemma is_hex_Cons: "is_hex (c # s) = (c \<in> set hex_digits \<and> is_hex s)"
  by (simp add: is_hex_def)

lemma is_hex_replicate_zero: "is_hex (replicate k (CHR ''0''))"
  by (induction k) (simp_all add: is_hex_def hex_digits_def)

lemma hex_of_nonpos: "n \<le> 0 \<Longrightarrow> hex_of n = []"
  by (simp add: hex_of.simps [of n])

lemma hex_of_pos: "0 < n \<Longrightarrow> hex_of n = hex_of (n div 16) @ [hex_char (n mod 16)]"
  by (simp add: hex_of.simps [of n])

lemma hex_loop_eq: "hex_loop n acc = Inr (hex_of n @ acc)"
proof (induction n acc rule: hex_loop.induct)
  case (1 n acc)
  show ?case
  proof (cases "n > 0")
    case True
    have g: "getitem hex_digits (n mod 16) = Inr (hex_char (n mod 16))"
      by (rule getitem_hex_digits) simp_all
    from "1.IH" [OF True g] True g show ?thesis
      by (simp add: hex_loop.simps [of n] hex_of_pos [of n])
  next
    case False
    then show ?thesis
      by (simp add: hex_loop.simps [of n] hex_of_nonpos)
  qed
qed

lemma is_hex_hex_of: "is_hex (hex_of n)"
proof (induction n rule: hex_of.induct)
  case (1 n)
  show ?case
  proof (cases "n > 0")
    case True
    have "hex_char (n mod 16) \<in> set hex_digits"
      by (rule hex_char_in) simp_all
    with "1.IH" True show ?thesis
      by (simp add: hex_of_pos [of n] is_hex_append is_hex_Cons is_hex_Nil)
  next
    case False
    then show ?thesis
      by (simp add: hex_of_nonpos is_hex_Nil)
  qed
qed

lemma hex_value_hex_of: "0 \<le> n \<Longrightarrow> hex_value (hex_of n) = n"
proof (induction n rule: hex_of.induct)
  case (1 n)
  show ?case
  proof (cases "n > 0")
    case True
    then have "hex_value (hex_of (n div 16)) = n div 16"
      using "1.IH" by simp
    moreover have "hex_digit_value (hex_char (n mod 16)) = n mod 16"
      by (rule hex_digit_value_hex_char) simp_all
    ultimately show ?thesis
      using True by (simp add: hex_of_pos [of n] hex_value_snoc)
  next
    case False
    with "1.prems" show ?thesis
      by (simp add: hex_of_nonpos hex_value_Nil)
  qed
qed

lemma hex_of_upper: "0 \<le> n \<Longrightarrow> n < 16 ^ length (hex_of n)"
  using hex_value_less [of "hex_of n"] by (simp add: hex_value_hex_of)

lemma hex_of_lower: "0 < n \<Longrightarrow> 16 ^ (length (hex_of n) - 1) \<le> n"
proof (induction n rule: hex_of.induct)
  case (1 n)
  show ?case
  proof (cases "n div 16 > 0")
    case True
    then have ih: "16 ^ (length (hex_of (n div 16)) - 1) \<le> n div 16"
      using "1.IH" "1.prems" by simp
    have "hex_of (n div 16) \<noteq> []"
      using True by (simp add: hex_of_pos [of "n div 16"])
    then have "length (hex_of n) - 1 = Suc (length (hex_of (n div 16)) - 1)"
      using "1.prems" by (simp add: hex_of_pos [of n])
    then have "(16::int) ^ (length (hex_of n) - 1) = 16 * 16 ^ (length (hex_of (n div 16)) - 1)"
      by simp
    also have "\<dots> \<le> 16 * (n div 16)"
      using ih by simp
    also have "\<dots> \<le> n"
      by simp
    finally show ?thesis .
  next
    case False
    then have "hex_of (n div 16) = []"
      by (simp add: hex_of_nonpos)
    then show ?thesis
      using "1.prems" by (simp add: hex_of_pos [of n])
  qed
qed

lemma hex_of_length_le:
  assumes "0 < n" "n < 16 ^ w"
  shows "length (hex_of n) \<le> w"
proof (rule ccontr)
  assume "\<not> length (hex_of n) \<le> w"
  then have "w \<le> length (hex_of n) - 1" by simp
  then have "(16::int) ^ w \<le> 16 ^ (length (hex_of n) - 1)"
    by (rule power_increasing) simp
  with hex_of_lower [OF assms(1)] assms(2) show False by linarith
qed


lemma hex_value_Cons: "hex_value (c # s) = hex_digit_value c * 16 ^ length s + hex_value s"
  using hex_value_append [of "[c]" s] hex_value_snoc [of "[]" c]
  by (simp add: hex_value_Nil)

lemma invert_hex_spec:
  "is_hex s \<Longrightarrow>
   \<exists>r. invert_hex s = Inr r \<and> length r = length s \<and> is_hex r \<and>
       hex_value r = 16 ^ length s - 1 - hex_value s"
proof (induction s)
  case Nil
  show ?case by (simp add: is_hex_Nil hex_value_Nil)
next
  case (Cons c s)
  then have c: "c \<in> set hex_digits" and s: "is_hex s"
    by (simp_all add: is_hex_Cons)
  from hex_digit_index [OF c] obtain k where
    k: "str_index hex_digits c = Inr k" "0 \<le> k" "k < 16"
    by blast
  from Cons.IH [OF s] obtain r where
    r: "invert_hex s = Inr r" "length r = length s" "is_hex r"
       "hex_value r = 16 ^ length s - 1 - hex_value s"
    by blast
  have g: "getitem hex_digits (15 - k) = Inr (hex_char (15 - k))"
    using k by (intro getitem_hex_digits) simp_all
  have run: "invert_hex (c # s) = Inr (hex_char (15 - k) # r)"
    by (simp add: k(1) g r(1))
  have dv: "hex_digit_value (hex_char (15 - k)) = 15 - k"
    using k by (intro hex_digit_value_hex_char) simp_all
  have cv: "hex_digit_value c = k"
    by (simp add: hex_digit_value_def k(1))
  have mem: "hex_char (15 - k) \<in> set hex_digits"
    using k by (intro hex_char_in) simp_all
  have "hex_value (hex_char (15 - k) # r) = 16 ^ length (c # s) - 1 - hex_value (c # s)"
    by (simp add: hex_value_Cons dv cv r(2,4) algebra_simps)
  moreover have "is_hex (hex_char (15 - k) # r)"
    using mem r(3) by (simp add: is_hex_Cons)
  ultimately show ?case
    using run r(2) by simp
qed

lemma add_one_to_hex_loop_no_carry:
  "add_one_to_hex_loop ds result 0 = Inr (rev ds @ result)"
  by (induction ds arbitrary: result) simp_all

lemma add_one_to_hex_loop_length:
  "add_one_to_hex_loop ds result carry = Inr r \<Longrightarrow> length r = length ds + length result"
proof (induction ds arbitrary: result carry)
  case Nil
  then show ?case by simp
next
  case (Cons d ds)
  show ?case
  proof (cases "carry = 0")
    case True
    with Cons.prems have "add_one_to_hex_loop ds (d # result) carry = Inr r" by simp
    from Cons.IH [OF this] show ?thesis by simp
  next
    case False
    with Cons.prems obtain k where k: "str_index hex_digits d = Inr k"
      by (auto split: sum.splits)
    show ?thesis
    proof (cases "k + carry \<ge> 16")
      case True
      with Cons.prems False k
      have "add_one_to_hex_loop ds (CHR ''0'' # result) 1 = Inr r" by simp
      from Cons.IH [OF this] show ?thesis by simp
    next
      case big: False
      with Cons.prems False k obtain c where
        "add_one_to_hex_loop ds (c # result) 0 = Inr r"
        by (auto split: sum.splits)
      from Cons.IH [OF this] show ?thesis by simp
    qed
  qed
qed

lemma add_one_to_hex_loop_spec:
  "is_hex ds \<Longrightarrow>
   \<exists>p. add_one_to_hex_loop ds result 1 = Inr (p @ result) \<and> length p = length ds \<and>
       is_hex p \<and> hex_value p = (hex_value (rev ds) + 1) mod 16 ^ length ds"
proof (induction ds arbitrary: result)
  case Nil
  show ?case by (simp add: is_hex_Nil hex_value_Nil)
next
  case (Cons d ds)
  then have d: "d \<in> set hex_digits" and ds: "is_hex ds"
    by (simp_all add: is_hex_Cons)
  from hex_digit_index [OF d] obtain k where
    k: "str_index hex_digits d = Inr k" "0 \<le> k" "k < 16"
    by blast
  have dv: "hex_digit_value d = k"
    by (simp add: hex_digit_value_def k(1))
  let ?v = "hex_value (rev ds)"
  have v: "hex_value (rev (d # ds)) = 16 * ?v + k"
    by (simp add: hex_value_snoc dv)
  have vb: "0 \<le> ?v" "?v < 16 ^ length ds"
    using hex_value_nonneg [of "rev ds"] hex_value_less [of "rev ds"] by simp_all
  show ?case
  proof (cases "k + 1 \<ge> 16")
    case True
    then have k15: "k = 15" using k(3) by simp
    from Cons.IH [OF ds, of "CHR ''0'' # result"] obtain p where
      p: "add_one_to_hex_loop ds (CHR ''0'' # result) 1 = Inr (p @ CHR ''0'' # result)"
         "length p = length ds" "is_hex p"
         "hex_value p = (?v + 1) mod 16 ^ length ds"
      by blast
    have run: "add_one_to_hex_loop (d # ds) result 1 = Inr ((p @ [CHR ''0'']) @ result)"
      using True by (simp add: k(1) p(1))
    have z: "hex_digit_value (CHR ''0'') = 0"
      by (simp add: hex_digit_value_def hex_digits_def)
    have "hex_value (p @ [CHR ''0'']) = 16 * ((?v + 1) mod 16 ^ length ds)"
      by (simp add: hex_value_snoc z p(4))
    also have "\<dots> = (16 * (?v + 1)) mod (16 * 16 ^ length ds)"
      by (rule mult_mod_right)
    also have "\<dots> = (hex_value (rev (d # ds)) + 1) mod 16 ^ length (d # ds)"
      by (simp add: hex_value_snoc dv k15 add.commute)
    finally have val: "hex_value (p @ [CHR ''0'']) =
        (hex_value (rev (d # ds)) + 1) mod 16 ^ length (d # ds)" .
    have "is_hex (p @ [CHR ''0''])"
      using p(3) by (simp add: is_hex_append is_hex_Cons is_hex_Nil hex_digits_def)
    moreover have "length (p @ [CHR ''0'']) = length (d # ds)"
      by (simp add: p(2))
    ultimately show ?thesis
      using run val by blast
  next
    case False
    then have k1: "0 \<le> k + 1" "k + 1 < 16" using k(2) by simp_all
    have g: "getitem hex_digits (k + 1) = Inr (hex_char (k + 1))"
      using k1 by (rule getitem_hex_digits)
    have run: "add_one_to_hex_loop (d # ds) result 1 = Inr ((rev ds @ [hex_char (k + 1)]) @ result)"
      using False by (simp add: k(1) g add_one_to_hex_loop_no_carry)
    have dv1: "hex_digit_value (hex_char (k + 1)) = k + 1"
      using k1 by (rule hex_digit_value_hex_char)
    have "hex_value (rev ds @ [hex_char (k + 1)]) = hex_value (rev (d # ds)) + 1"
      by (simp add: hex_value_snoc dv1 dv)
    moreover have "(hex_value (rev (d # ds)) + 1) mod 16 ^ length (d # ds)
        = hex_value (rev (d # ds)) + 1"
      using vb k(2) k1 by (intro mod_pos_pos_trivial) (simp_all add: hex_value_snoc dv)
    ultimately have val: "hex_value (rev ds @ [hex_char (k + 1)]) =
        (hex_value (rev (d # ds)) + 1) mod 16 ^ length (d # ds)"
      by simp
    have "is_hex (rev ds)"
      using ds by (simp add: is_hex_def)
    then have "is_hex (rev ds @ [hex_char (k + 1)])"
      using hex_char_in [OF k1] by (simp add: is_hex_append is_hex_Cons is_hex_Nil)
    moreover have "length (rev ds @ [hex_char (k + 1)]) = length (d # ds)"
      by simp
    ultimately show ?thesis
      using run val by blast
  qed
qed

lemma add_one_to_hex_spec:
  assumes "is_hex s"
  shows "\<exists>r. add_one_to_hex self s = (Inr r, self) \<and> length r = length s \<and> is_hex r \<and>
             hex_value r = (hex_value s + 1) mod 16 ^ length s"
proof -
  have "is_hex (rev s)" using assms by (simp add: is_hex_def)
  from add_one_to_hex_loop_spec [OF this, of "[]"] show ?thesis
    by (simp add: add_one_to_hex_def)
qed

lemma add_one_to_hex_length: "fst (add_one_to_hex self s) = Inr r \<Longrightarrow> length r = length s"
  using add_one_to_hex_loop_length [of "rev s" "[]" 1 r] by (simp add: add_one_to_hex_def)

lemma rjust_wide: "w \<le> int (length s) \<Longrightarrow> rjust s w c = s"
  by (simp add: rjust_def)

lemma rjust_eq: "rjust s w c = replicate (nat w - length s) c @ s"
  by (simp add: rjust_def)

lemma convert_to_hex_positive: "0 < number \<Longrightarrow> convert_to_hex self number = (Inr (hex_of number), self)"
  by (simp add: convert_to_hex_def hex_loop_eq)

lemma convert_to_hex_negative:
  assumes neg: "number < 0"
  shows "\<exists>inverted_hex r. invert_hex (rjust (hex_of \<bar>number\<bar>) 10 (CHR ''0'')) = Inr inverted_hex \<and>
             add_one_to_hex self inverted_hex = (Inr r, self) \<and>
             convert_to_hex self number = (Inr r, self) \<and>
             length r = max 10 (length (hex_of \<bar>number\<bar>)) \<and>
             is_hex r \<and> hex_value r = 16 ^ length r + number"
proof -
  define m where "m = \<bar>number\<bar>"
  define hs where "hs = hex_of m"
  define padded where "padded = rjust hs 10 (CHR ''0'')"
  define L where "L = max 10 (length hs)"
  have m: "0 < m" "number = - m" using neg by (simp_all add: m_def)
  have hs: "is_hex hs" "hex_value hs = m"
    using m(1) by (simp_all add: hs_def is_hex_hex_of hex_value_hex_of)
  have padded: "padded = replicate (10 - length hs) (CHR ''0'') @ hs"
    by (simp add: padded_def rjust_eq)
  have lenp: "length padded = L"
    by (simp add: padded L_def)
  have valp: "hex_value padded = m"
    by (simp add: padded hex_value_append hex_value_replicate_zero hs(2))
  have hexp: "is_hex padded"
    by (simp add: padded is_hex_append is_hex_replicate_zero hs(1))
  have mL: "m < 16 ^ L"
  proof -
    have "m < 16 ^ length hs"
      using hex_of_upper [of m] m(1) by (simp add: hs_def)
    also have "(16::int) ^ length hs \<le> 16 ^ L"
      by (rule power_increasing) (simp_all add: L_def)
    finally show ?thesis .
  qed
  from invert_hex_spec [OF hexp] obtain inv where
    inv: "invert_hex padded = Inr inv" "length inv = L" "is_hex inv"
         "hex_value inv = 16 ^ L - 1 - m"
    by (auto simp: lenp valp)
  from add_one_to_hex_spec [OF inv(3)] obtain r where
    r: "add_one_to_hex self inv = (Inr r, self)" "length r = L" "is_hex r"
       "hex_value r = (hex_value inv + 1) mod 16 ^ L"
    by (auto simp: inv(2))
  have "hex_value r = (16 ^ L - m) mod 16 ^ L"
    by (simp add: r(4) inv(4))
  also have "\<dots> = 16 ^ L - m"
    using m(1) mL by (intro mod_pos_pos_trivial) simp_all
  finally have val: "hex_value r = 16 ^ L - m" .
  have "rjust r 10 (CHR ''F'') = r"
    by (rule rjust_wide) (simp add: r(2) L_def)
  then have "convert_to_hex self number = (Inr r, self)"
    using neg inv(1) r(1) by (simp add: convert_to_hex_def hex_loop_eq padded_def hs_def m_def)
  moreover have "length r = max 10 (length (hex_of \<bar>number\<bar>))"
    by (simp add: r(2) L_def hs_def m_def)
  moreover have "hex_value r = 16 ^ length r + number"
    by (simp add: val r(2) m(2))
  moreover have "invert_hex (rjust (hex_of \<bar>number\<bar>) 10 (CHR ''0'')) = Inr inv"
    using inv(1) by (simp add: padded_def hs_def m_def)
  ultimately show ?thesis
    using r(1,3) by blast
qed

section \<open>Loading and auxiliary bounds\<close>

lemma load_lines_spec:
  "load_lines py_int i content self =
     self\<lparr>data := data self @ List.map_filter (\<lambda>line. py_int (strip line)) content,
          line_errors := line_errors self @
            filter (\<lambda>(j, line). py_int (strip line) = None) (enumerate i content)\<rparr>"
proof (induction content arbitrary: i self)
  case Nil
  show ?case by simp
next
  case (Cons line content)
  show ?case
    by (cases "py_int (strip line)") (simp_all add: Cons.IH validate_input_def)
qed

lemma classified_count:
  "length (List.map_filter f xs) + length (filter (\<lambda>(j, x). f x = None) (enumerate i xs))
     = length xs"
proof (induction xs arbitrary: i)
  case Nil
  show ?case by simp
next
  case (Cons x xs)
  show ?case
    using Cons.IH [of "Suc i"] by (cases "f x") simp_all
qed


lemma hex_of_length_eq:
  assumes "16 ^ (k - 1) \<le> n" "n < 16 ^ k"
  shows "length (hex_of n) = k"
proof -
  have pos: "0 < n"
  proof -
    have "(0::int) < 16 ^ (k - 1)" by simp
    with assms(1) show ?thesis by linarith
  qed
  have le: "length (hex_of n) \<le> k"
    using pos assms(2) by (rule hex_of_length_le)
  have "\<not> length (hex_of n) < k"
  proof
    assume "length (hex_of n) < k"
    then have "length (hex_of n) \<le> k - 1" by simp
    then have "(16::int) ^ length (hex_of n) \<le> 16 ^ (k - 1)"
      by (rule power_increasing) simp
    with assms(1) hex_of_upper [of n] pos show False by linarith
  qed
  with le show ?thesis by simp
qed

lemma twos_complement_value_wrap:
  assumes "0 < w" "- (2 ^ w) < n" "n < 0"
  shows "twos_complement_value w (2 ^ w + n) = (if \<bar>n\<bar> \<le> 2 ^ (w - 1) then n else 2 ^ w + n)"
proof -
  have "(2::int) ^ w = 2 * 2 ^ (w - 1)"
    using assms(1) by (cases w) simp_all
  then show ?thesis
    using assms(2,3) by (simp add: twos_complement_value_def)
qed

section \<open>The object is left as it was\<close>

lemma binary_add_one_self: "snd (binary_add_one self binary) = self"
  by (simp add: binary_add_one_def split: sum.splits prod.splits)

lemma twos_complement_self: "snd (twos_complement self binary bits) = self"
  using binary_add_one_self [of self "invert_bits binary"]
  by (auto simp: twos_complement_def split: prod.splits sum.splits)

lemma convert_to_binary_self: "snd (convert_to_binary self number bits) = self"
  by (simp add: convert_to_binary_def Let_def twos_complement_self)

lemma add_one_to_hex_self: "snd (add_one_to_hex self hex_string) = self"
  by (simp add: add_one_to_hex_def)

lemma add_one_to_hex_returns_self:
  "add_one_to_hex self hex_string = (r, self') \<Longrightarrow> self' = self"
  by (simp add: add_one_to_hex_def)

lemma convert_to_hex_self: "snd (convert_to_hex self number) = self"
  by (auto simp: convert_to_hex_def split: prod.splits sum.splits
      dest: add_one_to_hex_returns_self)

section \<open>The claims\<close>

text \<open>
  C1. The claim is that for every negative value and every positive \<open>bits\<close> the result
  of \<open>convert_to_binary\<close> has exactly \<open>bits\<close> characters, also when the magnitude has
  more than \<open>bits\<close> binary digits. The comment before the last line of
  \<open>__twos_complement\<close> says the same (``Ensure the result is of the desired length''),
  but \<open>zfill\<close> only pads: for \<open>-1024\<close> and the default width 10 the result has 11
  characters.
\<close>

theorem convert_to_binary_overlong_magnitude:
  "fst (convert_to_binary sample_converter (- 1024) 10) = Inr ''10000000000'' \<and>
   length ''10000000000'' = 11"
  by code_simp

text \<open>
  C2, as amended. For every negative \<open>n\<close> with \<open>|n| < 2^40\<close>, \<open>convert_to_hex\<close>
  returns a string of exactly 10 characters whose unsigned value is \<open>2^40 + n\<close>. Read
  as a 40-bit two's-complement number it is \<open>n\<close> when \<open>|n| \<le> 2^39\<close>, and
  \<open>2^40 + n\<close> otherwise.
\<close>

theorem convert_to_hex_negative_forty_bits:
  assumes "n < 0" "\<bar>n\<bar> < 2 ^ 40"
  shows "\<exists>r. fst (convert_to_hex self n) = Inr r \<and> length r = 10 \<and>
             hex_value r = 2 ^ 40 + n \<and>
             twos_complement_value 40 (hex_value r) = (if \<bar>n\<bar> \<le> 2 ^ 39 then n else 2 ^ 40 + n)"
proof -
  have "\<bar>n\<bar> < 16 ^ 10" using assms(2) by simp
  then have "length (hex_of \<bar>n\<bar>) \<le> 10"
    using assms(1) by (intro hex_of_length_le) simp_all
  with convert_to_hex_negative [OF assms(1), of self] obtain r where
    r: "convert_to_hex self n = (Inr r, self)" and len: "length r = 10"
    and val: "hex_value r = 16 ^ length r + n"
    by (auto simp: max_def)
  have v: "hex_value r = 2 ^ 40 + n"
    using val by (simp add: len)
  have "twos_complement_value 40 (2 ^ 40 + n) = (if \<bar>n\<bar> \<le> 2 ^ (40 - 1) then n else 2 ^ 40 + n)"
    using assms by (intro twos_complement_value_wrap) simp_all
  then have "twos_complement_value 40 (hex_value r) = (if \<bar>n\<bar> \<le> 2 ^ 39 then n else 2 ^ 40 + n)"
    by (simp add: v)
  with r len v show ?thesis by simp
qed

theorem convert_to_hex_negative_forty_bits_witness:
  "(- 255 :: int) < 0 \<and> \<bar>- 255 :: int\<bar> < 2 ^ 40 \<and>
   (\<exists>r. fst (convert_to_hex sample_converter (- 255)) = Inr r \<and> length r = 10 \<and>
        hex_value r = 2 ^ 40 + - 255 \<and> twos_complement_value 40 (hex_value r) = - 255)"
proof -
  have h1: "(- 255 :: int) < 0" by simp
  have h2: "\<bar>- 255 :: int\<bar> < 2 ^ 40" by simp
  show ?thesis
    using h1 h2 convert_to_hex_negative_forty_bits [OF h1 h2, of sample_converter] by simp
qed

text \<open>
  The width is not 10 for every negative number, and a magnitude above \<open>2^39\<close> does
  not come back: \<open>-2^40\<close> gives 11 characters, and \<open>-(2^39 + 1)\<close> gives
  \<open>7FFFFFFFFF\<close>, which reads as \<open>2^39 - 1\<close>.
\<close>

theorem convert_to_hex_width_counterexample:
  "fst (convert_to_hex sample_converter (- 1099511627776)) = Inr ''F0000000000'' \<and>
   length ''F0000000000'' = 11 \<and>
   \<bar>- 549755813889 :: int\<bar> < 2 ^ 40 \<and>
   fst (convert_to_hex sample_converter (- 549755813889)) = Inr ''7FFFFFFFFF'' \<and>
   twos_complement_value 40 (hex_value ''7FFFFFFFFF'') = 549755813887"
  by code_simp

text \<open>
  C3, as amended. For every negative \<open>n\<close> with \<open>|n| < 2^bits\<close>,
  \<open>convert_to_binary\<close> returns a string of exactly \<open>bits\<close> characters whose
  unsigned value is \<open>2^bits + n\<close>. Read as a two's-complement number of \<open>bits\<close>
  bits it is \<open>n\<close> when \<open>|n| \<le> 2^(bits - 1)\<close>, and \<open>2^bits + n\<close> otherwise.
\<close>

theorem convert_to_binary_negative_roundtrip:
  assumes "n < 0" "\<bar>n\<bar> < 2 ^ nat bits"
  shows "\<exists>r. fst (convert_to_binary self n bits) = Inr r \<and> int (length r) = bits \<and>
             bin_value r = 2 ^ nat bits + n \<and>
             twos_complement_value (nat bits) (bin_value r) =
               (if \<bar>n\<bar> \<le> 2 ^ (nat bits - 1) then n else 2 ^ nat bits + n)"
proof -
  have bpos: "0 < bits"
  proof (rule ccontr)
    assume "\<not> 0 < bits"
    then have "nat bits = 0" by simp
    with assms show False by simp
  qed
  have "length (bin_digits \<bar>n\<bar>) \<le> nat bits"
    using assms by (intro bin_digits_length_le) simp_all
  with convert_to_binary_negative [OF assms(1), of self bits] obtain r where
    r: "convert_to_binary self n bits = (Inr r, self)" and len: "length r = nat bits"
    and val: "bin_value r = 2 ^ length r + n"
    by (auto simp: max_def)
  have "twos_complement_value (nat bits) (2 ^ nat bits + n) =
      (if \<bar>n\<bar> \<le> 2 ^ (nat bits - 1) then n else 2 ^ nat bits + n)"
    using assms bpos by (intro twos_complement_value_wrap) simp_all
  with r len val bpos show ?thesis by simp
qed

theorem convert_to_binary_negative_roundtrip_witness:
  "(- 5 :: int) < 0 \<and> \<bar>- 5 :: int\<bar> < 2 ^ nat 10 \<and> \<bar>- 5 :: int\<bar> \<le> 2 ^ (nat 10 - 1) \<and>
   (\<exists>r. fst (convert_to_binary sample_converter (- 5) 10) = Inr r \<and> int (length r) = 10 \<and>
        bin_value r = 2 ^ nat 10 + - 5 \<and> twos_complement_value (nat 10) (bin_value r) = - 5)"
proof -
  have h1: "(- 5 :: int) < 0" by simp
  have h2: "\<bar>- 5 :: int\<bar> < 2 ^ nat 10" by simp
  show ?thesis
    using h1 h2 convert_to_binary_negative_roundtrip [OF h1 h2, of sample_converter] by simp
qed

text \<open>
  A magnitude that fits in \<open>bits\<close> binary digits need not come back: 513 fits in 10
  digits, and \<open>-513\<close> gives \<open>0111111111\<close>, which reads as 511.
\<close>

theorem convert_to_binary_roundtrip_counterexample:
  "\<bar>- 513 :: int\<bar> < 2 ^ 10 \<and>
   fst (convert_to_binary sample_converter (- 513) 10) = Inr ''0111111111'' \<and>
   twos_complement_value 10 (bin_value ''0111111111'') = 511"
  by code_simp

text \<open>
  C4, as amended. \<open>convert_to_hex\<close> returns \<open>FF\<close> for 255, and for \<open>-255\<close> it
  returns the 10 characters \<open>FFFFFFFF01\<close>, whose value is \<open>2^40 - 255\<close>, the two's
  complement of 255 over 40 bits.
\<close>

theorem convert_to_hex_255:
  "fst (convert_to_hex self 255) = Inr ''FF'' \<and>
   fst (convert_to_hex self (- 255)) = Inr ''FFFFFFFF01'' \<and>
   length ''FFFFFFFF01'' = 10 \<and> hex_value ''FFFFFFFF01'' = 2 ^ 40 - 255"
  by code_simp

text \<open>The digits \<open>FFFFFF0100\<close> are not the result for \<open>-255\<close>.\<close>

theorem convert_to_hex_minus_255_counterexample:
  "fst (convert_to_hex sample_converter (- 255)) \<noteq> Inr ''FFFFFF0100''"
  by code_simp


text \<open>
  C5. For every positive \<open>n\<close> the result of \<open>convert_to_binary\<close> does not depend
  on \<open>bits\<close>, and it is the unsigned binary representation of \<open>n\<close>: a non-empty
  string of binary digits that starts with \<open>1\<close> and has the value \<open>n\<close>.
\<close>

theorem convert_to_binary_positive_ignores_bits:
  assumes "0 < n"
  shows "convert_to_binary self n bits = convert_to_binary self n bits' \<and>
         (\<exists>s. fst (convert_to_binary self n bits) = Inr s \<and> s \<noteq> [] \<and> hd s = CHR ''1'' \<and>
              is_binary s \<and> bin_value s = n)"
  using assms
  by (simp add: convert_to_binary_positive bin_digits_nonempty hd_bin_digits
      is_binary_bin_digits bin_value_bin_digits)

theorem convert_to_binary_positive_ignores_bits_witness:
  "(0 :: int) < 5 \<and>
   convert_to_binary sample_converter 5 10 = convert_to_binary sample_converter 5 3 \<and>
   (\<exists>s. fst (convert_to_binary sample_converter 5 10) = Inr s \<and> s \<noteq> [] \<and>
        hd s = CHR ''1'' \<and> is_binary s \<and> bin_value s = 5)"
proof -
  have h: "(0 :: int) < 5" by simp
  show ?thesis
    using h convert_to_binary_positive_ignores_bits [OF h, of sample_converter 10 3] by blast
qed

text \<open>
  C6. For every positive \<open>bits\<close>, \<open>convert_to_binary\<close> returns \<open>bits\<close> characters
  \<open>1\<close> for \<open>-1\<close>.
\<close>

theorem convert_to_binary_minus_one:
  assumes "0 < bits"
  shows "fst (convert_to_binary self (- 1) bits) = Inr (replicate (nat bits) (CHR ''1''))"
proof -
  have d: "bin_digits 1 = ''1''"
    by (simp add: bin_digits.simps [of 1] bin_digits.simps [of 0] str_bit_def)
  have w: "max (nat bits) (length (bin_digits \<bar>- 1\<bar>)) = nat bits"
    using assms by (auto simp: d max_def)
  from convert_to_binary_negative [of "- 1" self bits] obtain r where
    r: "convert_to_binary self (- 1) bits = (Inr r, self)"
    and len: "length r = max (nat bits) (length (bin_digits \<bar>- 1\<bar>))"
    and bin: "is_binary r" and val: "bin_value r = 2 ^ length r + - 1"
    by auto
  from val have "bin_value r = 2 ^ length r - 1" by simp
  from all_ones [OF bin this] r len w show ?thesis by simp
qed

theorem convert_to_binary_minus_one_witness:
  "(0 :: int) < 10 \<and> fst (convert_to_binary sample_converter (- 1) 10) = Inr ''1111111111''"
proof -
  have h: "(0 :: int) < 10" by simp
  have "replicate (nat 10) (CHR ''1'') = ''1111111111''" by code_simp
  then show ?thesis
    using h convert_to_binary_minus_one [OF h, of sample_converter] by simp
qed

text \<open>
  C7. For every integer \<open>v\<close> and every \<open>bits\<close>, \<open>convert_to_binary\<close> and
  \<open>convert_to_hex\<close> return a string and raise nothing: no lookup in the digit table
  and no index into the digit list fails. The loops \<open>binary_digits_loop\<close> and
  \<open>hex_loop\<close> are total by their termination proofs, and \<open>hex_loop\<close> returns
  normally on every magnitude.
\<close>

theorem conversions_total:
  "(\<exists>s. fst (convert_to_binary self v bits) = Inr s \<and> s \<noteq> [] \<and> is_binary s) \<and>
   (\<exists>s. fst (convert_to_hex self v) = Inr s \<and> s \<noteq> [] \<and> is_hex s) \<and>
   (\<exists>hex_string. hex_loop \<bar>v\<bar> [] = Inr hex_string)"
proof -
  have loop: "\<exists>hex_string. hex_loop \<bar>v\<bar> [] = Inr hex_string"
    by (simp add: hex_loop_eq)
  consider "v = 0" | "0 < v" | "v < 0" by linarith
  then have "(\<exists>s. fst (convert_to_binary self v bits) = Inr s \<and> s \<noteq> [] \<and> is_binary s) \<and>
      (\<exists>s. fst (convert_to_hex self v) = Inr s \<and> s \<noteq> [] \<and> is_hex s)"
  proof cases
    case 1
    then show ?thesis
      by (simp add: convert_to_binary_def convert_to_hex_def is_binary_def is_hex_def
          hex_digits_def)
  next
    case 2
    have "hex_of v \<noteq> []"
      using 2 by (simp add: hex_of_pos [of v])
    with 2 show ?thesis
      by (simp add: convert_to_binary_positive convert_to_hex_positive bin_digits_nonempty
          is_binary_bin_digits is_hex_hex_of)
  next
    case 3
    from convert_to_binary_negative [OF 3, of self bits] obtain b where
      b: "convert_to_binary self v bits = (Inr b, self)" "is_binary b"
         "length b = max (nat bits) (length (bin_digits \<bar>v\<bar>))"
      by blast
    have "bin_digits \<bar>v\<bar> \<noteq> []"
      using 3 by (intro bin_digits_nonempty) simp
    then have "0 < length (bin_digits \<bar>v\<bar>)" by simp
    then have "0 < length b" by (simp add: b(3) less_max_iff_disj)
    then have "b \<noteq> []" by auto
    moreover from convert_to_hex_negative [OF 3, of self] obtain h where
      h: "convert_to_hex self v = (Inr h, self)" "is_hex h"
         "length h = max 10 (length (hex_of \<bar>v\<bar>))"
      by blast
    moreover from h(3) have "h \<noteq> []" by auto
    ultimately show ?thesis
      using b(1,2) by simp
  qed
  with loop show ?thesis by blast
qed

text \<open>
  C8. A call of \<open>convert_to_binary\<close> or \<open>convert_to_hex\<close> leaves the object as it
  was, so \<open>file_path\<close>, \<open>data\<close> and \<open>line_errors\<close> are unchanged, and a second call
  with the same arguments on the object left by the first returns the same result.
\<close>

theorem conversions_leave_object_unchanged:
  "snd (convert_to_binary self number bits) = self \<and>
   snd (convert_to_hex self number) = self \<and>
   file_path (snd (convert_to_binary self number bits)) = file_path self \<and>
   data (snd (convert_to_binary self number bits)) = data self \<and>
   line_errors (snd (convert_to_binary self number bits)) = line_errors self \<and>
   file_path (snd (convert_to_hex self number)) = file_path self \<and>
   data (snd (convert_to_hex self number)) = data self \<and>
   line_errors (snd (convert_to_hex self number)) = line_errors self \<and>
   fst (convert_to_binary (snd (convert_to_binary self number bits)) number bits)
     = fst (convert_to_binary self number bits) \<and>
   fst (convert_to_hex (snd (convert_to_hex self number)) number)
     = fst (convert_to_hex self number)"
proof -
  have b: "snd (convert_to_binary self number bits) = self"
    by (rule convert_to_binary_self)
  have h: "snd (convert_to_hex self number) = self"
    by (rule convert_to_hex_self)
  show ?thesis
    by (simp only: b h)
qed

text \<open>
  C9. When the path names a file, the constructor returns normally: \<open>data\<close> holds, in
  order, the integers of the lines that parse, \<open>line_errors\<close> holds, in order, the pair
  of index and raw line for every other line, and every line is in exactly one of the
  two. When the path names no file, the constructor raises FileNotFoundError, and both
  collections are empty.
\<close>

theorem init_classifies_lines:
  "(fs path = Some content \<longrightarrow>
      init fs py_int path =
        (Inr (), \<lparr>file_path = path,
                   data = List.map_filter (\<lambda>line. py_int (strip line)) content,
                   line_errors =
                     filter (\<lambda>(i, line). py_int (strip line) = None)
                       (enumerate 0 content)\<rparr>) \<and>
      length (data (snd (init fs py_int path))) + length (line_errors (snd (init fs py_int path)))
        = length content) \<and>
   (fs path = None \<longrightarrow>
      init fs py_int path =
        (Inl (FileNotFoundError (''The file '' @ path @ '' does not exist.'')),
         \<lparr>file_path = path, data = [], line_errors = []\<rparr>))"
proof (intro conjI impI)
  assume f: "fs path = Some content"
  then show i: "init fs py_int path =
        (Inr (), \<lparr>file_path = path,
                   data = List.map_filter (\<lambda>line. py_int (strip line)) content,
                   line_errors =
                     filter (\<lambda>(i, line). py_int (strip line) = None)
                       (enumerate 0 content)\<rparr>)"
    by (simp add: init_def load_data_def validate_file_exists_def isfile_def load_lines_spec)
  show "length (data (snd (init fs py_int path))) + length (line_errors (snd (init fs py_int path)))
        = length content"
    by (simp add: i classified_count)
next
  assume "fs path = None"
  then show "init fs py_int path =
        (Inl (FileNotFoundError (''The file '' @ path @ '' does not exist.'')),
         \<lparr>file_path = path, data = [], line_errors = []\<rparr>)"
    by (simp add: init_def load_data_def validate_file_exists_def isfile_def)
qed

theorem init_classifies_lines_witness:
  "sample_fs ''numbers.txt'' = Some [''12'' @ [CHR 0x0A], ''abc'' @ [CHR 0x0A], '' -7 ''] \<and>
   init sample_fs sample_int ''numbers.txt'' = (Inr (), sample_converter) \<and>
   sample_fs ''missing.txt'' = None \<and>
   init sample_fs sample_int ''missing.txt'' =
     (Inl (FileNotFoundError ''The file missing.txt does not exist.''),
      \<lparr>file_path = ''missing.txt'', data = [], line_errors = []\<rparr>)"
proof -
  let ?content = "[''12'' @ [CHR 0x0A], ''abc'' @ [CHR 0x0A], '' -7 '']"
  have h1: "sample_fs ''numbers.txt'' = Some ?content"
    by (simp add: sample_fs_def)
  have h2: "sample_fs ''missing.txt'' = None"
    by (simp add: sample_fs_def)
  have d: "List.map_filter (\<lambda>line. sample_int (strip line)) ?content = [12, - 7]"
    by code_simp
  have e: "filter (\<lambda>(i, line). sample_int (strip line) = None) (enumerate 0 ?content)
      = [(1, ''abc'' @ [CHR 0x0A])]"
    by code_simp
  from init_classifies_lines [of sample_fs "''numbers.txt''" ?content sample_int] h1
  have a: "init sample_fs sample_int ''numbers.txt'' = (Inr (), sample_converter)"
    by (simp only: d e sample_converter_def)
  from init_classifies_lines [of sample_fs "''missing.txt''" ?content sample_int] h2
  have b: "init sample_fs sample_int ''missing.txt'' =
     (Inl (FileNotFoundError ''The file missing.txt does not exist.''),
      \<lparr>file_path = ''missing.txt'', data = [], line_errors = []\<rparr>)"
    by simp
  from h1 a h2 b show ?thesis by blast
qed

text \<open>
  C10. Whenever \<open>add_one_to_hex\<close> returns, its result is as long as its argument, and
  it returns on every string of hexadecimal digits. For a negative \<open>n\<close> of \<open>k\<close>
  hexadecimal digits, the final \<open>rjust\<close> with \<open>F\<close> in \<open>convert_to_hex\<close> changes
  nothing, and the result has \<open>max(10, k)\<close> characters.
\<close>

theorem add_one_to_hex_keeps_length:
  "(fst (add_one_to_hex self s) = Inr r \<longrightarrow> length r = length s) \<and>
   (is_hex s \<longrightarrow> (\<exists>r'. fst (add_one_to_hex self s) = Inr r')) \<and>
   (n < 0 \<and> 16 ^ (k - 1) \<le> \<bar>n\<bar> \<and> \<bar>n\<bar> < 16 ^ k \<longrightarrow>
      (\<exists>hex_string inverted_hex incremented.
         hex_loop \<bar>n\<bar> [] = Inr hex_string \<and> length hex_string = k \<and>
         invert_hex (rjust hex_string 10 (CHR ''0'')) = Inr inverted_hex \<and>
         fst (add_one_to_hex self inverted_hex) = Inr incremented \<and>
         rjust incremented 10 (CHR ''F'') = incremented \<and>
         fst (convert_to_hex self n) = Inr incremented \<and>
         length incremented = max 10 k))"
proof (intro conjI impI)
  assume "fst (add_one_to_hex self s) = Inr r"
  then show "length r = length s" by (rule add_one_to_hex_length)
next
  assume "is_hex s"
  from add_one_to_hex_spec [OF this, of self]
  show "\<exists>r'. fst (add_one_to_hex self s) = Inr r'" by auto
next
  assume a: "n < 0 \<and> 16 ^ (k - 1) \<le> \<bar>n\<bar> \<and> \<bar>n\<bar> < 16 ^ k"
  then have "16 ^ (k - 1) \<le> \<bar>n\<bar>" and "\<bar>n\<bar> < 16 ^ k"
    by blast+
  then have k: "length (hex_of \<bar>n\<bar>) = k"
    by (rule hex_of_length_eq)
  from a have neg: "n < 0" by simp
  from convert_to_hex_negative [OF neg, of self] obtain inv r where
    inv: "invert_hex (rjust (hex_of \<bar>n\<bar>) 10 (CHR ''0'')) = Inr inv"
    and r: "add_one_to_hex self inv = (Inr r, self)" "convert_to_hex self n = (Inr r, self)"
           "length r = max 10 (length (hex_of \<bar>n\<bar>))"
    by blast
  have pad: "rjust r 10 (CHR ''F'') = r"
    by (rule rjust_wide) (simp add: r(3))
  have loop: "hex_loop \<bar>n\<bar> [] = Inr (hex_of \<bar>n\<bar>)"
    by (simp add: hex_loop_eq)
  have "hex_loop \<bar>n\<bar> [] = Inr (hex_of \<bar>n\<bar>) \<and> length (hex_of \<bar>n\<bar>) = k \<and>
         invert_hex (rjust (hex_of \<bar>n\<bar>) 10 (CHR ''0'')) = Inr inv \<and>
         fst (add_one_to_hex self inv) = Inr r \<and>
         rjust r 10 (CHR ''F'') = r \<and>
         fst (convert_to_hex self n) = Inr r \<and>
         length r = max 10 k"
    using loop k inv r pad by simp
  then show "\<exists>hex_string inverted_hex incremented.
         hex_loop \<bar>n\<bar> [] = Inr hex_string \<and> length hex_string = k \<and>
         invert_hex (rjust hex_string 10 (CHR ''0'')) = Inr inverted_hex \<and>
         fst (add_one_to_hex self inverted_hex) = Inr incremented \<and>
         rjust incremented 10 (CHR ''F'') = incremented \<and>
         fst (convert_to_hex self n) = Inr incremented \<and>
         length incremented = max 10 k"
    by blast
qed

theorem add_one_to_hex_keeps_length_witness:
  "fst (add_one_to_hex sample_converter ''FFFFFFFF00'') = Inr ''FFFFFFFF01'' \<and>
   length ''FFFFFFFF01'' = length ''FFFFFFFF00'' \<and>
   is_hex ''FFFFFFFF00'' \<and>
   (- 255 :: int) < 0 \<and> 16 ^ (2 - 1) \<le> \<bar>- 255 :: int\<bar> \<and> \<bar>- 255 :: int\<bar> < 16 ^ 2 \<and>
   (\<exists>hex_string inverted_hex incremented.
         hex_loop \<bar>- 255\<bar> [] = Inr hex_string \<and> length hex_string = 2 \<and>
         invert_hex (rjust hex_string 10 (CHR ''0'')) = Inr inverted_hex \<and>
         fst (add_one_to_hex sample_converter inverted_hex) = Inr incremented \<and>
         rjust incremented 10 (CHR ''F'') = incremented \<and>
         fst (convert_to_hex sample_converter (- 255)) = Inr incremented \<and>
         length incremented = max 10 2)"
proof -
  have a: "fst (add_one_to_hex sample_converter ''FFFFFFFF00'') = Inr ''FFFFFFFF01''"
    by code_simp
  have b: "is_hex ''FFFFFFFF00''" by code_simp
  have c: "(- 255 :: int) < 0 \<and> 16 ^ (2 - 1) \<le> \<bar>- 255 :: int\<bar> \<and> \<bar>- 255 :: int\<bar> < 16 ^ 2"
    by simp
  from add_one_to_hex_keeps_length
    [of sample_converter "''FFFFFFFF00''" "''FFFFFFFF01''" "- 255" 2] a b c
  show ?thesis by simp
qed

end
